theory Spec2Isabelle
  imports Main "HOL-Library.Word" "HOL-Library.Finite_Map" "HOL-Library.List_Lexorder"
    "HOL-Library.Char_ord" "HOL-Library.Multiset"
begin

section \<open>Embedding of the program\<close>

text \<open>
  The program digests files, directories and zip archives with SHA-256, compares two
  digest dictionaries, and runs an operation twice to see which outputs changed.
  Functions whose Python name starts with an underscore lose it here. A dictionary is a
  finite map; an exception is the \<open>Inl\<close> of a sum.
\<close>

unbundle bit_operations_syntax

type_synonym path = string
type_synonym byte = "8 word"
type_synonym digest_map = "(string, string) fmap"

datatype error = IOError | BadZipFile | KeyError | RecursionError
  | UnsupportedFormat string | OperationFailure

subsection \<open>SHA-256 and its hexadecimal digest\<close>

text \<open>
  \<^verbatim>\<open>hashlib.sha256\<close> follows FIPS 180-4: the message is padded to a multiple of 64 bytes
  and compressed block by block; \<open>hexdigest\<close> prints the eight state words in lowercase
  hexadecimal.
\<close>

type_synonym sha_state =
  "32 word \<times> 32 word \<times> 32 word \<times> 32 word \<times> 32 word \<times> 32 word \<times> 32 word \<times> 32 word"

definition K256 :: "32 word list" where
  "K256 = concat
    [[0x428a2f98, 0x71374491, 0xb5c0fbcf, 0xe9b5dba5, 0x3956c25b, 0x59f111f1, 0x923f82a4, 0xab1c5ed5],
     [0xd807aa98, 0x12835b01, 0x243185be, 0x550c7dc3, 0x72be5d74, 0x80deb1fe, 0x9bdc06a7, 0xc19bf174],
     [0xe49b69c1, 0xefbe4786, 0x0fc19dc6, 0x240ca1cc, 0x2de92c6f, 0x4a7484aa, 0x5cb0a9dc, 0x76f988da],
     [0x983e5152, 0xa831c66d, 0xb00327c8, 0xbf597fc7, 0xc6e00bf3, 0xd5a79147, 0x06ca6351, 0x14292967],
     [0x27b70a85, 0x2e1b2138, 0x4d2c6dfc, 0x53380d13, 0x650a7354, 0x766a0abb, 0x81c2c92e, 0x92722c85],
     [0xa2bfe8a1, 0xa81a664b, 0xc24b8b70, 0xc76c51a3, 0xd192e819, 0xd6990624, 0xf40e3585, 0x106aa070],
     [0x19a4c116, 0x1e376c08, 0x2748774c, 0x34b0bcb5, 0x391c0cb3, 0x4ed8aa4a, 0x5b9cca4f, 0x682e6ff3],
     [0x748f82ee, 0x78a5636f, 0x84c87814, 0x8cc70208, 0x90befffa, 0xa4506ceb, 0xbef9a3f7, 0xc67178f2]]"

definition H256 :: sha_state where
  "H256 = (0x6a09e667, 0xbb67ae85, 0x3c6ef372, 0xa54ff53a, 0x510e527f, 0x9b05688c, 0x1f83d9ab, 0x5be0cd19)"

definition rotr :: "nat \<Rightarrow> 32 word \<Rightarrow> 32 word" where
  "rotr n x = drop_bit n x OR push_bit (32 - n) x"

definition sha_round :: "32 word \<times> 32 word \<Rightarrow> sha_state \<Rightarrow> sha_state" where
  "sha_round kw st =
     (case st of (a, b, c, d, e, f, g, h) \<Rightarrow>
        let s1 = rotr 6 e XOR rotr 11 e XOR rotr 25 e;
            ch = (e AND f) XOR (NOT e AND g);
            t1 = h + s1 + ch + fst kw + snd kw;
            s0 = rotr 2 a XOR rotr 13 a XOR rotr 22 a;
            maj = (a AND b) XOR (a AND c) XOR (b AND c);
            t2 = s0 + maj
        in (t1 + t2, a, b, c, d + t1, e, f, g))"

definition sha_extend :: "nat \<Rightarrow> 32 word list \<Rightarrow> 32 word list" where
  "sha_extend t W =
     (let w15 = W ! (t - 15); w2 = W ! (t - 2);
          s0 = rotr 7 w15 XOR rotr 18 w15 XOR drop_bit 3 w15;
          s1 = rotr 17 w2 XOR rotr 19 w2 XOR drop_bit 10 w2
      in W @ [W ! (t - 16) + s0 + W ! (t - 7) + s1])"

fun be32 :: "byte list \<Rightarrow> 32 word list" where
  "be32 (b0 # b1 # b2 # b3 # bs) =
     (push_bit 24 (ucast b0) OR push_bit 16 (ucast b1) OR push_bit 8 (ucast b2) OR ucast b3) # be32 bs"
| "be32 _ = []"

definition sha_compress :: "byte list \<Rightarrow> sha_state \<Rightarrow> sha_state" where
  "sha_compress block st =
     (let W = fold sha_extend [16..<64] (be32 block) in
      case (st, fold sha_round (zip K256 W) st) of
        ((a, b, c, d, e, f, g, h), (a', b', c', d', e', f', g', h')) \<Rightarrow>
          (a + a', b + b', c + c', d + d', e + e', f + f', g + g', h + h'))"

definition sha_pad :: "byte list \<Rightarrow> byte list" where
  "sha_pad msg =
     msg @ [0x80] @ replicate ((119 - length msg mod 64) mod 64) 0
       @ map (\<lambda>i. ucast (drop_bit (8 * i) (of_nat (8 * length msg) :: 64 word))) [7, 6, 5, 4, 3, 2, 1, 0]"

fun sha_blocks :: "nat \<Rightarrow> byte list \<Rightarrow> sha_state \<Rightarrow> sha_state" where
  "sha_blocks 0 bs st = st"
| "sha_blocks (Suc k) bs st = sha_blocks k (drop 64 bs) (sha_compress (take 64 bs) st)"

definition sha256 :: "byte list \<Rightarrow> sha_state" where
  "sha256 msg = (let p = sha_pad msg in sha_blocks (length p div 64) p H256)"

definition hex_digit :: "nat \<Rightarrow> char" where
  "hex_digit n = ''0123456789abcdef'' ! (n mod 16)"

definition hex32 :: "32 word \<Rightarrow> string" where
  "hex32 x = map (\<lambda>i. hex_digit (unat (drop_bit (4 * i) x AND 0xF))) [7, 6, 5, 4, 3, 2, 1, 0]"

definition hexdigest :: "byte list \<Rightarrow> string" where
  "hexdigest m =
     (case sha256 m of (a, b, c, d, e, f, g, h) \<Rightarrow>
        hex32 a @ hex32 b @ hex32 c @ hex32 d @ hex32 e @ hex32 f @ hex32 g @ hex32 h)"


subsection \<open>The hash object and the chunked read loop\<close>

text \<open>
  A \<^verbatim>\<open>hashlib.sha256()\<close> object is modelled by the bytes fed to it so far:
  \<^verbatim>\<open>m.update(buf)\<close> appends \<open>buf\<close>, \<^verbatim>\<open>m.hexdigest()\<close> is \<open>hexdigest\<close> of what
  was fed. \<open>read_loop m f\<close> is the loop
  \<^verbatim>\<open>while True: buf = f.read(BUF_SIZE); if not buf: break; m.update(buf)\<close>
  on a stream whose unread bytes are \<open>f\<close>.
\<close>

definition BUF_SIZE :: nat where
  "BUF_SIZE = 65536"

function read_loop :: "byte list \<Rightarrow> byte list \<Rightarrow> byte list" where
  "read_loop m f =
     (if take BUF_SIZE f = [] then m
      else read_loop (m @ take BUF_SIZE f) (drop BUF_SIZE f))"
  by pat_completeness auto
termination
  by (relation "measure (\<lambda>(m, f). length f)") (auto simp: BUF_SIZE_def)

declare read_loop.simps [simp del]

subsection \<open>Digests of strings and of JSON values\<close>

text \<open>
  A Python \<^verbatim>\<open>str\<close> is a \<open>string\<close> whose characters are the code points below 256.
  \<open>json_dumps_strs\<close> and \<open>json_dumps_ints\<close> are \<^verbatim>\<open>json.dumps(o, sort_keys=True)\<close> on a
  list of strings and on a tuple of non-negative integers: the default separators, and
  \<^verbatim>\<open>ensure_ascii\<close> escaping every character outside \<^verbatim>\<open>' '..'~'\<close>.
\<close>

function dec :: "nat \<Rightarrow> string" where
  "dec n = (if n < 10 then [char_of (48 + n)] else dec (n div 10) @ [char_of (48 + n mod 10)])"
  by pat_completeness auto
termination
  by (relation "measure id") auto

declare dec.simps [simp del]

definition json_escape :: "char \<Rightarrow> string" where
  "json_escape c =
     (let n = (of_char c :: nat) in
      if c = CHR 0x22 then [CHR 0x5C, CHR 0x22]
      else if c = CHR 0x5C then [CHR 0x5C, CHR 0x5C]
      else if c = CHR 0x0A then [CHR 0x5C, CHR ''n'']
      else if c = CHR 0x0D then [CHR 0x5C, CHR ''r'']
      else if c = CHR 0x09 then [CHR 0x5C, CHR ''t'']
      else if c = CHR 0x08 then [CHR 0x5C, CHR ''b'']
      else if c = CHR 0x0C then [CHR 0x5C, CHR ''f'']
      else if n < 32 \<or> 126 < n
        then [CHR 0x5C, CHR ''u'', CHR ''0'', CHR ''0'', hex_digit (n div 16), hex_digit n]
      else [c])"

definition json_string :: "string \<Rightarrow> string" where
  "json_string s = [CHR 0x22] @ concat (map json_escape s) @ [CHR 0x22]"

fun comma_join :: "string list \<Rightarrow> string" where
  "comma_join [] = []"
| "comma_join [x] = x"
| "comma_join (x # y # ys) = x @ '', '' @ comma_join (y # ys)"

definition json_dumps_strs :: "string list \<Rightarrow> string" where
  "json_dumps_strs obj = ''['' @ comma_join (map json_string obj) @ '']''"

definition json_dumps_ints :: "nat list \<Rightarrow> string" where
  "json_dumps_ints obj = ''['' @ comma_join (map dec obj) @ '']''"

definition encode_utf8 :: "string \<Rightarrow> byte list" where
  "encode_utf8 s =
     concat (map (\<lambda>c. let n = (of_char c :: nat) in
                      if n < 128 then [of_nat n]
                      else [of_nat (192 + n div 64), of_nat (128 + n mod 64)]) s)"

definition digest_string :: "string \<Rightarrow> string" where
  "digest_string s = hexdigest (encode_utf8 s)"

definition digest_json_strs :: "string list \<Rightarrow> string" where
  "digest_json_strs obj = digest_string (json_dumps_strs obj)"

definition digest_json_ints :: "nat list \<Rightarrow> string" where
  "digest_json_ints obj = digest_string (json_dumps_ints obj)"

subsection \<open>The world the program observes\<close>

text \<open>
  The program reads the file system through \<^verbatim>\<open>os.path.islink\<close>, \<^verbatim>\<open>os.readlink\<close>,
  \<^verbatim>\<open>os.path.isdir\<close>, \<^verbatim>\<open>os.listdir\<close>, \<^verbatim>\<open>open(file, 'rb')\<close> and \<^verbatim>\<open>zipfile.ZipFile\<close>.
  A \<open>world\<close> gives the answer of each of them at every path. \<open>file_bytes\<close> is what
  reading the file at the path to its end yields, \<open>zip_infolist\<close> what the zip reader finds
  in it: for each member its name, its time stamp and the outcome of reading its
  decompressed bytes. Parsing and decompression are the library's and are not modelled.
\<close>

record zip_info =
  filename :: string
  date_time :: "nat \<times> nat \<times> nat \<times> nat \<times> nat \<times> nat"
  member_bytes :: "error + byte list"

record world =
  islink :: "path \<Rightarrow> bool"
  readlink :: "path \<Rightarrow> string"
  isdir :: "path \<Rightarrow> bool"
  listdir :: "path \<Rightarrow> error + string list"
  file_bytes :: "path \<Rightarrow> error + byte list"
  zip_infolist :: "path \<Rightarrow> error + zip_info list"

text \<open>\<^verbatim>\<open>open(file, 'rb')\<close> read to the end; opening a directory fails.\<close>

definition open_rb :: "world \<Rightarrow> path \<Rightarrow> error + byte list" where
  "open_rb w file = (if isdir w file then Inl IOError else file_bytes w file)"

text \<open>\<^verbatim>\<open>os.path.join(file, name)\<close> of \<^verbatim>\<open>posixpath\<close>.\<close>

definition path_join :: "path \<Rightarrow> string \<Rightarrow> path" where
  "path_join file name =
     (if name \<noteq> [] \<and> hd name = CHR ''/'' then name
      else if file = [] \<or> last file = CHR ''/'' then file @ name
      else file @ ''/'' @ name)"

definition endswith :: "string \<Rightarrow> string \<Rightarrow> bool" where
  "endswith s suffix \<longleftrightarrow>
     length suffix \<le> length s \<and> drop (length s - length suffix) s = suffix"

subsection \<open>File Digester\<close>

definition digest_file :: "world \<Rightarrow> path \<Rightarrow> error + string" where
  "digest_file w file =
     (case open_rb w file of
        Inl e \<Rightarrow> Inl e
      | Inr f \<Rightarrow> Inr (hexdigest (read_loop [] f)))"

text \<open>
  \<open>digest_files_loop depth w digests files\<close> is the \<^verbatim>\<open>for file in files\<close> loop of
  \<^verbatim>\<open>digest_files\<close> started with the dictionary \<open>digests\<close>. \<open>depth\<close> is the number of
  nested calls the interpreter still allows: the recursive call on a directory raises
  \<^verbatim>\<open>RecursionError\<close> when none is left.
\<close>

fun digest_files_loop :: "nat \<Rightarrow> world \<Rightarrow> digest_map \<Rightarrow> path list \<Rightarrow> error + digest_map" where
  "digest_files_loop depth w digests [] = Inr digests"
| "digest_files_loop depth w digests (file # files) =
     (if islink w file then
        digest_files_loop depth w (fmupd file (''symlink='' @ readlink w file) digests) files
      else if isdir w file then
        (case listdir w file of
           Inl e \<Rightarrow> Inl e
         | Inr names \<Rightarrow>
             (case depth of
                0 \<Rightarrow> Inl RecursionError
              | Suc d \<Rightarrow>
                  (case digest_files_loop d w fmempty (map (path_join file) names) of
                     Inl e \<Rightarrow> Inl e
                   | Inr sub \<Rightarrow> digest_files_loop depth w (digests ++\<^sub>f sub) files)))
      else
        (case digest_file w file of
           Inl e \<Rightarrow> Inl e
         | Inr h \<Rightarrow> digest_files_loop depth w (fmupd file (''sha256='' @ h) digests) files))"

definition digest_files :: "nat \<Rightarrow> world \<Rightarrow> path list \<Rightarrow> error + digest_map" where
  "digest_files depth w files = digest_files_loop depth w fmempty files"

subsection \<open>Archive Digester\<close>

text \<open>\<^verbatim>\<open>zipfile.ZipFile(archive, 'r')\<close> opens the file, then lists its members.\<close>

definition ZipFile :: "world \<Rightarrow> path \<Rightarrow> error + zip_info list" where
  "ZipFile w archive =
     (case open_rb w archive of
        Inl e \<Rightarrow> Inl e
      | Inr raw \<Rightarrow> zip_infolist w archive)"

text \<open>\<^verbatim>\<open>ar.open(name, 'r')\<close> reads the last member stored under \<open>name\<close>.\<close>

definition ar_open :: "zip_info list \<Rightarrow> string \<Rightarrow> error + byte list" where
  "ar_open infolist name =
     (case find (\<lambda>info. filename info = name) (rev infolist) of
        None \<Rightarrow> Inl KeyError
      | Some info \<Rightarrow> member_bytes info)"

fun digest_zip_loop ::
  "path \<Rightarrow> zip_info list \<Rightarrow> digest_map \<Rightarrow> zip_info list \<Rightarrow> error + digest_map" where
  "digest_zip_loop archive infolist digests [] = Inr digests"
| "digest_zip_loop archive infolist digests (info # infos) =
     (case ar_open infolist (filename info) of
        Inl e \<Rightarrow> Inl e
      | Inr f \<Rightarrow>
          digest_zip_loop archive infolist
            (fmupd (archive @ ''#'' @ filename info) (hexdigest (read_loop [] f))
              (fmupd (archive @ ''#'' @ filename info @ ''#date_time'')
                (case date_time info of (y, mo, d, h, mi, s) \<Rightarrow> digest_json_ints [y, mo, d, h, mi, s])
                digests))
            infos)"

definition digest_zip_archive :: "world \<Rightarrow> path \<Rightarrow> error + digest_map" where
  "digest_zip_archive w archive =
     (case ZipFile w archive of
        Inl e \<Rightarrow> Inl e
      | Inr infolist \<Rightarrow>
          digest_zip_loop archive infolist
            (fmupd (archive @ ''#namelist'') (digest_json_strs (map filename infolist)) fmempty)
            infolist)"

definition digest_archive :: "world \<Rightarrow> path \<Rightarrow> error + digest_map" where
  "digest_archive w archive =
     (if endswith archive ''.zip'' \<or> endswith archive ''.jar'' \<or> endswith archive ''.war''
      then digest_zip_archive w archive
      else Inl (UnsupportedFormat archive))"

subsection \<open>Digest Comparator\<close>

definition compare_digests :: "digest_map \<Rightarrow> digest_map \<Rightarrow> string list" where
  "compare_digests digests1 digests2 =
     (let all_keys = fmdom digests1 |\<union>| fmdom digests2;
          differences = ffilter (\<lambda>key. fmlookup digests1 key \<noteq> fmlookup digests2 key) all_keys
      in sorted_list_of_fset differences)"

subsection \<open>Reproducibility Tester\<close>

text \<open>
  \<^verbatim>\<open>ChainMap(m0, m1, ...)\<close> answers \<^verbatim>\<open>get\<close> from the first map that holds the key and
  \<^verbatim>\<open>keys\<close> with the union of the key sets: it is read as the single map that does so.
\<close>

definition ChainMap :: "digest_map list \<Rightarrow> digest_map" where
  "ChainMap maps = foldr (\<lambda>m rest. rest ++\<^sub>f m) maps fmempty"

fun digest_archives :: "world \<Rightarrow> path list \<Rightarrow> error + digest_map list" where
  "digest_archives w [] = Inr []"
| "digest_archives w (ar # ars) =
     (case digest_archive w ar of
        Inl e \<Rightarrow> Inl e
      | Inr d \<Rightarrow>
          (case digest_archives w ars of
             Inl e \<Rightarrow> Inl e
           | Inr ds \<Rightarrow> Inr (d # ds)))"

definition digest_outputs :: "nat \<Rightarrow> world \<Rightarrow> path list \<Rightarrow> path list \<Rightarrow> error + digest_map" where
  "digest_outputs depth w output_files output_archives =
     (case digest_files depth w (output_files @ output_archives) of
        Inl e \<Rightarrow> Inl e
      | Inr fd \<Rightarrow>
          (case digest_archives w output_archives of
             Inl e \<Rightarrow> Inl e
           | Inr ads \<Rightarrow> Inr (ChainMap (fd # ads))))"

text \<open>
  The operation under test changes the world or fails: \<open>func w\<close> is the world it leaves,
  or the exception it raises.
\<close>

definition test_reproducibility ::
  "nat \<Rightarrow> (world \<Rightarrow> error + world) \<Rightarrow> path list \<Rightarrow> path list \<Rightarrow> world \<Rightarrow> error + string list" where
  "test_reproducibility depth func output_files output_archives w =
     (case func w of
        Inl e \<Rightarrow> Inl e
      | Inr w1 \<Rightarrow>
          (case digest_outputs depth w1 output_files output_archives of
             Inl e \<Rightarrow> Inl e
           | Inr digests1 \<Rightarrow>
               (case func w1 of
                  Inl e \<Rightarrow> Inl e
                | Inr w2 \<Rightarrow>
                    (case digest_outputs depth w2 output_files output_archives of
                       Inl e \<Rightarrow> Inl e
                     | Inr digests2 \<Rightarrow> Inr (compare_digests digests1 digests2)))))"

subsection \<open>Shapes of digest values\<close>

definition hex_chars :: "char set" where
  "hex_chars = set ''0123456789abcdef''"

text \<open>A scheme-tagged value starts with \<^verbatim>\<open>sha256=\<close> or with \<^verbatim>\<open>symlink=\<close>.\<close>

definition scheme_tagged :: "string \<Rightarrow> bool" where
  "scheme_tagged v \<longleftrightarrow> take 7 v = ''sha256='' \<or> take 8 v = ''symlink=''"

text \<open>A bare digest is 64 lowercase hexadecimal characters.\<close>

definition bare_hex :: "string \<Rightarrow> bool" where
  "bare_hex v \<longleftrightarrow> length v = 64 \<and> set v \<subseteq> hex_chars"

subsection \<open>Example worlds and operations\<close>

text \<open>A world in which no path exists.\<close>

definition empty_world :: world where
  "empty_world =
     \<lparr>islink = (\<lambda>p. False), readlink = (\<lambda>p. []), isdir = (\<lambda>p. False),
      listdir = (\<lambda>p. Inl IOError), file_bytes = (\<lambda>p. Inl IOError),
      zip_infolist = (\<lambda>p. Inl IOError)\<rparr>"

text \<open>The only path is \<^verbatim>\<open>s\<close>, a symbolic link whose target \<^verbatim>\<open>gone\<close> does not exist.\<close>

definition dangling_world :: world where
  "dangling_world =
     empty_world\<lparr>islink := (\<lambda>p. p = ''s''), readlink := (\<lambda>p. if p = ''s'' then ''gone'' else [])\<rparr>"

text \<open>An operation that always fails, and \<^verbatim>\<open>mkdir stamp\<close>, which fails when run again.\<close>

definition failing_op :: "world \<Rightarrow> error + world" where
  "failing_op w = Inl OperationFailure"

definition mkdir_stamp :: "world \<Rightarrow> error + world" where
  "mkdir_stamp w =
     (if isdir w ''stamp'' then Inl OperationFailure
      else Inr (w\<lparr>isdir := (\<lambda>p. p = ''stamp'' \<or> isdir w p),
                   listdir := (\<lambda>p. if p = ''stamp'' then Inr [] else listdir w p)\<rparr>))"

definition stamped_world :: world where
  "stamped_world =
     empty_world\<lparr>isdir := (\<lambda>p. p = ''stamp'' \<or> isdir empty_world p),
                  listdir := (\<lambda>p. if p = ''stamp'' then Inr [] else listdir empty_world p)\<rparr>"

text \<open>
  A directory \<^verbatim>\<open>d\<close> that holds a one-byte file \<^verbatim>\<open>a\<close> and a symbolic link \<^verbatim>\<open>b\<close>
  to it.
\<close>

definition dir_world :: world where
  "dir_world =
     \<lparr>islink = (\<lambda>p. p = ''d/b''),
      readlink = (\<lambda>p. if p = ''d/b'' then ''a'' else []),
      isdir = (\<lambda>p. p = ''d''),
      listdir = (\<lambda>p. if p = ''d'' then Inr [''a'', ''b''] else Inl IOError),
      file_bytes = (\<lambda>p. if p = ''d/a'' \<or> p = ''d/b'' then Inr [0x41] else Inl IOError),
      zip_infolist = (\<lambda>p. Inl BadZipFile)\<rparr>"

text \<open>
  Worlds around one archive \<^verbatim>\<open>a.zip\<close>: an archive without members; one whose only
  member is called \<^verbatim>\<open>x\<close>; one whose only member is called \<^verbatim>\<open>namelist\<close>; and an
  empty archive reached through the symbolic link \<^verbatim>\<open>a.zip\<close> to \<^verbatim>\<open>real.zip\<close>. The raw
  bytes of the empty archive are its end-of-central-directory record; for the other two
  only the first bytes are written out, since nothing below depends on them.
\<close>

definition empty_zip_bytes :: "byte list" where
  "empty_zip_bytes = [0x50, 0x4B, 0x05, 0x06] @ replicate 18 0"

definition empty_zip_world :: world where
  "empty_zip_world =
     empty_world\<lparr>file_bytes := (\<lambda>p. if p = ''a.zip'' then Inr empty_zip_bytes else Inl IOError),
                  zip_infolist := (\<lambda>p. if p = ''a.zip'' then Inr [] else Inl IOError)\<rparr>"

definition member_x :: zip_info where
  "member_x = \<lparr>filename = ''x'', date_time = (1980, 1, 1, 0, 0, 0), member_bytes = Inr [0x31]\<rparr>"

definition one_member_world :: world where
  "one_member_world =
     empty_world\<lparr>file_bytes := (\<lambda>p. if p = ''a.zip'' then Inr [0x50, 0x4B, 0x03, 0x04] else Inl IOError),
                  zip_infolist := (\<lambda>p. if p = ''a.zip'' then Inr [member_x] else Inl IOError)\<rparr>"

definition member_namelist :: zip_info where
  "member_namelist =
     \<lparr>filename = ''namelist'', date_time = (1980, 1, 1, 0, 0, 0), member_bytes = Inr [0x31]\<rparr>"

definition namelist_member_world :: world where
  "namelist_member_world =
     empty_world\<lparr>file_bytes := (\<lambda>p. if p = ''a.zip'' then Inr [0x50, 0x4B, 0x03, 0x04] else Inl IOError),
                  zip_infolist := (\<lambda>p. if p = ''a.zip'' then Inr [member_namelist] else Inl IOError)\<rparr>"

definition linked_zip_world :: world where
  "linked_zip_world =
     empty_zip_world\<lparr>islink := (\<lambda>p. p = ''a.zip''),
                      readlink := (\<lambda>p. if p = ''a.zip'' then ''real.zip'' else [])\<rparr>"

subsection \<open>The value recorded for a leaf\<close>

text \<open>
  What \<open>digest_files\<close> stores under a path it treats as a leaf: the link record of a
  symbolic link, the tagged content hash of anything else that can be read.
\<close>

definition leaf_value :: "world \<Rightarrow> path \<Rightarrow> string" where
  "leaf_value w k =
     (if islink w k then ''symlink='' @ readlink w k
      else case digest_file w k of Inl e \<Rightarrow> [] | Inr h \<Rightarrow> ''sha256='' @ h)"

section \<open>Digest Comparator: membership, order, reflexivity, symmetry\<close>

lemma compare_digests_set:
  "set (compare_digests A B) = {key. fmlookup A key \<noteq> fmlookup B key}"
proof -
  have "key |\<in>| fmdom A |\<union>| fmdom B" if "fmlookup A key \<noteq> fmlookup B key" for key
  proof (rule ccontr)
    assume "\<not> key |\<in>| fmdom A |\<union>| fmdom B"
    then have "fmlookup A key = None" and "fmlookup B key = None"
      by (auto dest: fmdom_notD)
    with that show False by simp
  qed
  then show ?thesis
    by (auto simp: compare_digests_def Let_def)
qed

lemma compare_digests_sorted:
  "sorted (compare_digests A B)" "distinct (compare_digests A B)"
  by (simp_all add: compare_digests_def Let_def sorted_list_of_fset.rep_eq)

text \<open>
  Claim C1. A key is in \<open>compare_digests A B\<close> exactly when \<open>A.get(key)\<close> and
  \<open>B.get(key)\<close> differ, a missing key (\<open>None\<close>) differing from every present value; so a
  key held by only one of the two maps is in the result; and the result is sorted
  ascending in the lexicographic order of strings, without repetition.
\<close>

theorem C1_compare_digests_spec:
  "(key \<in> set (compare_digests A B) \<longleftrightarrow> fmlookup A key \<noteq> fmlookup B key)
   \<and> (fmlookup A key = None \<and> fmlookup B key = Some v \<longrightarrow> key \<in> set (compare_digests A B))
   \<and> (fmlookup A key = Some v \<and> fmlookup B key = None \<longrightarrow> key \<in> set (compare_digests A B))
   \<and> sorted (compare_digests A B) \<and> distinct (compare_digests A B)"
  by (simp add: compare_digests_set compare_digests_sorted)

theorem C1_compare_digests_spec_witness:
  "fmlookup (fmupd ''a'' ''sha256=1'' fmempty) ''b'' = None
   \<and> fmlookup (fmupd ''b'' ''sha256=2'' (fmupd ''a'' ''sha256=1'' fmempty)) ''b'' = Some ''sha256=2''
   \<and> ''b'' \<in> set (compare_digests (fmupd ''a'' ''sha256=1'' fmempty)
                 (fmupd ''b'' ''sha256=2'' (fmupd ''a'' ''sha256=1'' fmempty)))
   \<and> sorted (compare_digests (fmupd ''a'' ''sha256=1'' fmempty)
                 (fmupd ''b'' ''sha256=2'' (fmupd ''a'' ''sha256=1'' fmempty)))"
  using C1_compare_digests_spec [of "''b''" "fmupd ''a'' ''sha256=1'' fmempty"
      "fmupd ''b'' ''sha256=2'' (fmupd ''a'' ''sha256=1'' fmempty)" "''sha256=2''"]
  by simp

text \<open>
  Claim C9. Comparing a map with itself gives the empty list, and swapping the two maps
  leaves the set of reported keys unchanged (the two sorted lists are even equal).
\<close>

theorem C9_compare_digests_refl_sym:
  "compare_digests M M = []
   \<and> set (compare_digests M1 M2) = set (compare_digests M2 M1)
   \<and> compare_digests M1 M2 = compare_digests M2 M1"
proof -
  have "set (compare_digests M M) = {}"
    by (simp add: compare_digests_set)
  then have r: "compare_digests M M = []"
    by simp
  have s: "set (compare_digests M1 M2) = set (compare_digests M2 M1)"
    by (auto simp: compare_digests_set)
  have "compare_digests M1 M2 = compare_digests M2 M1"
    using s compare_digests_sorted [of M1 M2] compare_digests_sorted [of M2 M1]
    by (intro sorted_distinct_set_unique) simp_all
  with r s show ?thesis by simp
qed

section \<open>Facts about the hash and the read loop\<close>

lemma read_loop_append: "read_loop m f = m @ f"
proof (induction m f rule: read_loop.induct)
  case (1 m f)
  show ?case
  proof (cases "take BUF_SIZE f = []")
    case True
    then have "f = []" by (auto simp: BUF_SIZE_def)
    with True show ?thesis by (subst read_loop.simps) simp
  next
    case False
    with 1 show ?thesis by (subst read_loop.simps) simp
  qed
qed

lemma hex_digit_mem: "hex_digit n \<in> hex_chars"
proof -
  have "n mod 16 < length ''0123456789abcdef''" by simp
  then show ?thesis unfolding hex_digit_def hex_chars_def by (rule nth_mem)
qed

lemma hex32_length: "length (hex32 x) = 8"
  by (simp add: hex32_def)

lemma hex32_set: "set (hex32 x) \<subseteq> hex_chars"
  unfolding hex32_def set_map by (rule image_subsetI) (rule hex_digit_mem)

lemma hexdigest_length: "length (hexdigest m) = 64"
  by (simp add: hexdigest_def hex32_length split: prod.splits)

lemma hexdigest_set: "set (hexdigest m) \<subseteq> hex_chars"
  using hex32_set by (auto simp: hexdigest_def split: prod.splits)

lemma bare_hex_hexdigest: "bare_hex (hexdigest m)"
  by (simp add: bare_hex_def hexdigest_length hexdigest_set)

lemma bare_hex_not_tagged: "bare_hex v \<Longrightarrow> \<not> scheme_tagged v"
proof
  assume b: "bare_hex v" and t: "scheme_tagged v"
  from b have "v \<noteq> []" by (auto simp: bare_hex_def)
  then have "hd v \<in> set v" by simp
  with b have h: "hd v \<in> hex_chars" by (auto simp: bare_hex_def)
  from t \<open>v \<noteq> []\<close> have "hd v = CHR ''s''"
    by (cases v) (auto simp: scheme_tagged_def)
  with h show False by (simp add: hex_chars_def)
qed

lemma endswith_iff: "endswith s suffix \<longleftrightarrow> (\<exists>p. s = p @ suffix)"
proof
  assume "endswith s suffix"
  then have "s = take (length s - length suffix) s @ suffix"
    by (metis append_take_drop_id endswith_def)
  then show "\<exists>p. s = p @ suffix" ..
next
  assume "\<exists>p. s = p @ suffix"
  then show "endswith s suffix" by (auto simp: endswith_def)
qed

section \<open>Archive Digester: unsupported formats\<close>

text \<open>
  Claim C8. A path that ends with none of \<^verbatim>\<open>.zip\<close>, \<^verbatim>\<open>.jar\<close>, \<^verbatim>\<open>.war\<close> makes
  \<open>digest_archive\<close> fail with the unsupported-format error in every world, whatever the
  world answers at that path: no file is opened, so the error is the same when the path
  does not exist or cannot be read.
\<close>

theorem C8_unsupported_format:
  assumes "\<not> endswith archive ''.zip''" and "\<not> endswith archive ''.jar''"
    and "\<not> endswith archive ''.war''"
  shows "digest_archive w archive = Inl (UnsupportedFormat archive)"
  using assms by (simp add: digest_archive_def)

theorem C8_unsupported_format_witness:
  "\<not> endswith ''out.tar'' ''.zip'' \<and> \<not> endswith ''out.tar'' ''.jar''
   \<and> \<not> endswith ''out.tar'' ''.war''
   \<and> file_bytes empty_world ''out.tar'' = Inl IOError
   \<and> digest_archive empty_world ''out.tar'' = Inl (UnsupportedFormat ''out.tar'')"
  using C8_unsupported_format [of "''out.tar''" empty_world]
  by (simp add: endswith_def empty_world_def)

section \<open>File Digester: symbolic links\<close>

text \<open>
  Claim C6. For a symbolic link \<open>s\<close>, \<open>digest_files [s]\<close> is the one-entry map from \<open>s\<close>
  to \<^verbatim>\<open>symlink=\<close> followed by the link's target. The equation holds in every world
  and at every recursion depth, so it holds when the target does not exist, and nothing
  the world says about the target (its bytes, its listing) enters the result.
\<close>

theorem C6_symlink:
  assumes "islink w s"
  shows "digest_files depth w [s] = Inr (fmupd s (''symlink='' @ readlink w s) fmempty)"
  using assms by (simp add: digest_files_def)

theorem C6_symlink_witness:
  "islink dangling_world ''s'' \<and> file_bytes dangling_world ''gone'' = Inl IOError
   \<and> digest_files 0 dangling_world [''s''] = Inr (fmupd ''s'' ''symlink=gone'' fmempty)"
  using C6_symlink [of dangling_world "''s''" 0]
  by (simp add: dangling_world_def empty_world_def)

section \<open>Reproducibility Tester: a failing operation\<close>

text \<open>
  Claim C3. When the operation fails on its first invocation, or on its second one
  (after a first round that ran and was digested), \<open>test_reproducibility\<close> returns that
  very failure: the result is the operation's error, not a list of keys, so it is never
  the empty list. The failed round has no world to digest and no comparison result.
\<close>

theorem C3_operation_failure:
  "(func w = Inl e \<longrightarrow>
      test_reproducibility depth func output_files output_archives w = Inl e)
   \<and> (func w = Inr w1 \<and> digest_outputs depth w1 output_files output_archives = Inr digests1
        \<and> func w1 = Inl e \<longrightarrow>
      test_reproducibility depth func output_files output_archives w = Inl e)
   \<and> ((func w = Inl e \<or> (func w = Inr w1
          \<and> digest_outputs depth w1 output_files output_archives = Inr digests1
          \<and> func w1 = Inl e)) \<longrightarrow>
      test_reproducibility depth func output_files output_archives w \<noteq> Inr [])"
  by (auto simp: test_reproducibility_def)

theorem C3_operation_failure_witness:
  "failing_op empty_world = Inl OperationFailure
   \<and> test_reproducibility 1 failing_op [''stamp''] [] empty_world = Inl OperationFailure
   \<and> mkdir_stamp empty_world = Inr stamped_world
   \<and> digest_outputs 1 stamped_world [''stamp''] [] = Inr fmempty
   \<and> mkdir_stamp stamped_world = Inl OperationFailure
   \<and> test_reproducibility 1 mkdir_stamp [''stamp''] [] empty_world = Inl OperationFailure
   \<and> test_reproducibility 1 mkdir_stamp [''stamp''] [] empty_world \<noteq> Inr []"
proof -
  have a: "failing_op empty_world = Inl OperationFailure"
    by (simp add: failing_op_def)
  have i: "\<not> isdir empty_world ''stamp''"
    by (simp add: empty_world_def)
  have b: "mkdir_stamp empty_world = Inr stamped_world"
    using i by (simp add: mkdir_stamp_def stamped_world_def)
  have c: "digest_outputs 1 stamped_world [''stamp''] [] = Inr fmempty"
    by (simp add: digest_outputs_def digest_files_def ChainMap_def stamped_world_def
        empty_world_def)
  have d: "mkdir_stamp stamped_world = Inl OperationFailure"
    by (simp add: mkdir_stamp_def stamped_world_def)
  show ?thesis
    using a b c d
      C3_operation_failure [where func = failing_op and w = empty_world
        and e = OperationFailure and depth = 1 and output_files = "[''stamp'']"
        and output_archives = "[]"]
      C3_operation_failure [where func = mkdir_stamp and w = empty_world
        and e = OperationFailure and depth = 1 and output_files = "[''stamp'']"
        and output_archives = "[]" and ?w1.0 = stamped_world and ?digests1.0 = fmempty]
    by simp
qed

section \<open>File Digester: the structure of the result\<close>

lemma loop_Cons:
  "digest_files_loop depth w acc (x # xs) =
     (case digest_files_loop depth w fmempty [x] of
        Inl e \<Rightarrow> Inl e
      | Inr c \<Rightarrow> digest_files_loop depth w (acc ++\<^sub>f c) xs)"
proof (cases "islink w x")
  case True
  then show ?thesis
    by simp
next
  case notlink: False
  show ?thesis
  proof (cases "isdir w x")
    case True
    show ?thesis
    proof (cases "listdir w x")
      case (Inl e)
      with notlink True show ?thesis by simp
    next
      case (Inr names)
      show ?thesis
      proof (cases depth)
        case 0
        with notlink True Inr show ?thesis by simp
      next
        case (Suc d)
        show ?thesis
        proof (cases "digest_files_loop d w fmempty (map (path_join x) names)")
          case (Inl e)
          with notlink True Inr Suc show ?thesis by simp
        next
          case sub: (Inr sub)
          with notlink True Inr Suc show ?thesis by simp
        qed
      qed
    qed
  next
    case False
    show ?thesis
    proof (cases "digest_file w x")
      case (Inl e)
      with notlink False show ?thesis by simp
    next
      case (Inr h)
      with notlink False show ?thesis
        by simp
    qed
  qed
qed

lemma loop_acc:
  "digest_files_loop depth w acc files =
     (case digest_files_loop depth w fmempty files of
        Inl e \<Rightarrow> Inl e
      | Inr m \<Rightarrow> Inr (acc ++\<^sub>f m))"
proof (induction files arbitrary: acc)
  case Nil
  show ?case by simp
next
  case (Cons f fs)
  note A = loop_Cons [of depth w acc f fs]
  note B = loop_Cons [of depth w fmempty f fs]
  show ?case
  proof (cases "digest_files_loop depth w fmempty [f]")
    case (Inl e)
    show ?thesis
      by (simp only: A B Inl sum.case)
  next
    case (Inr c)
    have "digest_files_loop depth w (acc ++\<^sub>f c) fs =
        (case digest_files_loop depth w (fmempty ++\<^sub>f c) fs of
           Inl e \<Rightarrow> Inl e
         | Inr m \<Rightarrow> Inr (acc ++\<^sub>f m))"
      by (simp only: Cons.IH [of "acc ++\<^sub>f c"] Cons.IH [of "fmempty ++\<^sub>f c"])
        (simp split: sum.splits)
    then show ?thesis
      by (simp only: A B Inr sum.case)
  qed
qed

text \<open>The equations that characterise \<open>digest_files\<close>.\<close>

lemma digest_files_Nil: "digest_files depth w [] = Inr fmempty"
  by (simp add: digest_files_def)

lemma digest_files_single:
  "digest_files depth w [file] =
     (if islink w file then Inr (fmupd file (''symlink='' @ readlink w file) fmempty)
      else if isdir w file then
        (case listdir w file of
           Inl e \<Rightarrow> Inl e
         | Inr names \<Rightarrow>
             (case depth of
                0 \<Rightarrow> Inl RecursionError
              | Suc d \<Rightarrow> digest_files d w (map (path_join file) names)))
      else
        (case digest_file w file of
           Inl e \<Rightarrow> Inl e
         | Inr h \<Rightarrow> Inr (fmupd file (''sha256='' @ h) fmempty)))"
  by (simp add: digest_files_def split: sum.splits nat.splits)

lemma digest_files_Cons:
  "digest_files depth w (x # xs) =
     (case digest_files depth w [x] of
        Inl e \<Rightarrow> Inl e
      | Inr c \<Rightarrow>
          (case digest_files depth w xs of
             Inl e \<Rightarrow> Inl e
           | Inr m \<Rightarrow> Inr (c ++\<^sub>f m)))"
proof -
  note A = loop_Cons [of depth w fmempty x xs]
  show ?thesis
  proof (cases "digest_files_loop depth w fmempty [x]")
    case (Inl e)
    show ?thesis
      unfolding digest_files_def by (simp only: A Inl sum.case)
  next
    case (Inr c)
    have "digest_files_loop depth w (fmempty ++\<^sub>f c) xs =
        (case digest_files_loop depth w fmempty xs of
           Inl e \<Rightarrow> Inl e
         | Inr m \<Rightarrow> Inr (c ++\<^sub>f m))"
      by (simp only: loop_acc [of depth w "fmempty ++\<^sub>f c" xs]) (simp split: sum.splits)
    then show ?thesis
      unfolding digest_files_def by (simp only: A Inr sum.case)
  qed
qed

lemma digest_files_append:
  "digest_files depth w (xs @ ys) =
     (case digest_files depth w xs of
        Inl e \<Rightarrow> Inl e
      | Inr a \<Rightarrow>
          (case digest_files depth w ys of
             Inl e \<Rightarrow> Inl e
           | Inr b \<Rightarrow> Inr (a ++\<^sub>f b)))"
proof (induction xs)
  case Nil
  show ?case by (simp add: digest_files_Nil split: sum.splits)
next
  case (Cons x xs)
  show ?case
    using Cons.IH
    by (simp only: append_Cons digest_files_Cons [of depth w x "xs @ ys"]
        digest_files_Cons [of depth w x xs])
      (simp split: sum.splits)
qed

section \<open>File Digester: every value is the leaf value of its key\<close>

lemma lift_files:
  assumes single: "\<And>x c. x \<in> set xs \<Longrightarrow> digest_files depth w [x] = Inr c \<Longrightarrow>
      fmlookup c k = Some v \<Longrightarrow> Q"
    and res: "digest_files depth w xs = Inr m" and look: "fmlookup m k = Some v"
  shows Q
  using assms
proof (induction xs arbitrary: m)
  case Nil
  then show ?case by (simp add: digest_files_Nil)
next
  case (Cons x xs)
  from Cons.prems(2) obtain c m' where c: "digest_files depth w [x] = Inr c"
    and m': "digest_files depth w xs = Inr m'" and m: "m = c ++\<^sub>f m'"
    by (auto simp: digest_files_Cons [of depth w x xs] split: sum.splits)
  show ?case
  proof (cases "k |\<in>| fmdom m'")
    case True
    with Cons.prems(3) m have "fmlookup m' k = Some v" by simp
    with Cons.IH [OF _ m'] Cons.prems(1) show ?thesis by auto
  next
    case False
    with Cons.prems(3) m have "fmlookup c k = Some v" by simp
    with Cons.prems(1) [of x c] c show ?thesis by simp
  qed
qed

lemma single_value:
  assumes IH: "\<And>d ys m. depth = Suc d \<Longrightarrow> digest_files d w ys = Inr m \<Longrightarrow>
      fmlookup m k = Some v \<Longrightarrow>
      v = leaf_value w k \<and> (islink w k \<or> (\<not> isdir w k \<and> (\<exists>h. digest_file w k = Inr h)))"
    and c: "digest_files depth w [x] = Inr c" and look: "fmlookup c k = Some v"
  shows "v = leaf_value w k \<and> (islink w k \<or> (\<not> isdir w k \<and> (\<exists>h. digest_file w k = Inr h)))"
proof (cases "islink w x")
  case True
  with c have "c = fmupd x (''symlink='' @ readlink w x) fmempty"
    by (simp add: digest_files_single [of depth w x])
  with look have "k = x" and "v = ''symlink='' @ readlink w x"
    by (auto split: if_splits)
  with True show ?thesis by (simp add: leaf_value_def)
next
  case notlink: False
  show ?thesis
  proof (cases "isdir w x")
    case True
    with notlink c obtain names d where "depth = Suc d"
      and "digest_files d w (map (path_join x) names) = Inr c"
      by (auto simp: digest_files_single [of depth w x] split: sum.splits nat.splits)
    with IH look show ?thesis by blast
  next
    case False
    with notlink c obtain h where h: "digest_file w x = Inr h"
      and "c = fmupd x (''sha256='' @ h) fmempty"
      by (auto simp: digest_files_single [of depth w x] split: sum.splits)
    with look have "k = x" and "v = ''sha256='' @ h"
      by (auto split: if_splits)
    with notlink False h show ?thesis by (simp add: leaf_value_def)
  qed
qed

lemma digest_files_value:
  "digest_files depth w xs = Inr m \<Longrightarrow> fmlookup m k = Some v \<Longrightarrow>
     v = leaf_value w k \<and> (islink w k \<or> (\<not> isdir w k \<and> (\<exists>h. digest_file w k = Inr h)))"
proof (induction depth arbitrary: xs m)
  case 0
  show ?case
  proof (rule lift_files [OF _ "0.prems"])
    fix x c
    assume "digest_files 0 w [x] = Inr c" "fmlookup c k = Some v"
    then show "v = leaf_value w k \<and>
        (islink w k \<or> (\<not> isdir w k \<and> (\<exists>h. digest_file w k = Inr h)))"
      by (rule single_value [rotated]) simp
  qed
next
  case (Suc d)
  show ?case
  proof (rule lift_files [OF _ Suc.prems])
    fix x c
    assume "digest_files (Suc d) w [x] = Inr c" "fmlookup c k = Some v"
    then show "v = leaf_value w k \<and>
        (islink w k \<or> (\<not> isdir w k \<and> (\<exists>h. digest_file w k = Inr h)))"
      by (rule single_value [rotated]) (use Suc.IH in auto)
  qed
qed

lemma scheme_tagged_leaf_value:
  assumes "digest_files depth w xs = Inr m" "fmlookup m k = Some v"
  shows "scheme_tagged v"
  using digest_files_value [OF assms]
  by (auto simp: leaf_value_def scheme_tagged_def)

section \<open>File Digester: the result depends only on the set of paths\<close>

lemma digest_files_member:
  "digest_files depth w xs = Inr m \<Longrightarrow> x \<in> set xs \<Longrightarrow>
     \<exists>c. digest_files depth w [x] = Inr c \<and> fmdom' c \<subseteq> fmdom' m"
proof (induction xs arbitrary: m)
  case Nil
  then show ?case by simp
next
  case (Cons y ys)
  from Cons.prems(1) obtain c m' where c: "digest_files depth w [y] = Inr c"
    and m': "digest_files depth w ys = Inr m'" and m: "m = c ++\<^sub>f m'"
    by (auto simp: digest_files_Cons [of depth w y ys] split: sum.splits)
  show ?case
  proof (cases "x = y")
    case True
    with c m show ?thesis by auto
  next
    case False
    with Cons.prems(2) have "x \<in> set ys" by simp
    from Cons.IH [OF m' this] m show ?thesis by auto
  qed
qed

lemma digest_files_dom:
  "digest_files depth w xs = Inr m \<Longrightarrow> k \<in> fmdom' m \<Longrightarrow>
     \<exists>x c. x \<in> set xs \<and> digest_files depth w [x] = Inr c \<and> k \<in> fmdom' c"
proof (induction xs arbitrary: m)
  case Nil
  then show ?case by (simp add: digest_files_Nil)
next
  case (Cons y ys)
  from Cons.prems(1) obtain c m' where c: "digest_files depth w [y] = Inr c"
    and m': "digest_files depth w ys = Inr m'" and m: "m = c ++\<^sub>f m'"
    by (auto simp: digest_files_Cons [of depth w y ys] split: sum.splits)
  from Cons.prems(2) m have "k \<in> fmdom' c \<or> k \<in> fmdom' m'" by auto
  then show ?case
  proof
    assume "k \<in> fmdom' c"
    with c show ?thesis by auto
  next
    assume "k \<in> fmdom' m'"
    from Cons.IH [OF m' this] show ?thesis by auto
  qed
qed

lemma digest_files_total:
  "(\<And>x. x \<in> set xs \<Longrightarrow> \<exists>c. digest_files depth w [x] = Inr c) \<Longrightarrow>
     \<exists>m. digest_files depth w xs = Inr m"
proof (induction xs)
  case Nil
  show ?case by (simp add: digest_files_Nil)
next
  case (Cons y ys)
  from Cons.prems [of y] obtain c where c: "digest_files depth w [y] = Inr c" by auto
  have "\<exists>m. digest_files depth w ys = Inr m"
    by (rule Cons.IH) (rule Cons.prems, simp)
  then obtain m' where m': "digest_files depth w ys = Inr m'" ..
  from c m' show ?case
    by (simp add: digest_files_Cons [of depth w y ys])
qed

lemma digest_files_set_cong:
  assumes eq: "set xs = set ys" and xs: "digest_files depth w xs = Inr m"
  shows "digest_files depth w ys = Inr m"
proof -
  have "\<exists>c. digest_files depth w [y] = Inr c" if "y \<in> set ys" for y
    using digest_files_member [OF xs, of y] that eq by auto
  then obtain m' where ys: "digest_files depth w ys = Inr m'"
    using digest_files_total [of ys depth w] by blast
  have sub: "fmdom' a \<subseteq> fmdom' b"
    if a: "digest_files depth w as = Inr a" and b: "digest_files depth w bs = Inr b"
      and s: "set as = set bs" for as bs a b
  proof
    fix k assume "k \<in> fmdom' a"
    from digest_files_dom [OF a this] obtain x c where x: "x \<in> set as"
      and c: "digest_files depth w [x] = Inr c" and k: "k \<in> fmdom' c" by blast
    from digest_files_member [OF b, of x] x s c have "fmdom' c \<subseteq> fmdom' b" by auto
    with k show "k \<in> fmdom' b" by auto
  qed
  have dom: "fmdom' m = fmdom' m'"
    using sub [OF xs ys eq] sub [OF ys xs eq [symmetric]] by auto
  have "fmlookup m' k = fmlookup m k" for k
  proof (cases "fmlookup m k")
    case None
    then have "k \<notin> fmdom' m" by (simp add: fmdom'_notI)
    with dom have "k \<notin> fmdom' m'" by simp
    then have "fmlookup m' k = None" by (simp add: fmdom'_notD)
    with None show ?thesis by simp
  next
    case (Some v)
    then have "k \<in> fmdom' m" by (simp add: fmdom'I)
    with dom have "k \<in> fmdom' m'" by simp
    then obtain v' where v': "fmlookup m' k = Some v'"
      using fmlookup_dom'_iff [of k m'] by blast
    from digest_files_value [OF xs Some] digest_files_value [OF ys v'] have "v' = v" by simp
    with Some v' show ?thesis by simp
  qed
  then have "m' = m" by (rule fmap_ext)
  with ys show ?thesis by simp
qed

section \<open>File Digester: duplicates, flattening and enumeration order\<close>

text \<open>
  Claim C10. A path that already occurs in the list can be appended once more without
  changing what \<open>digest_files\<close> returns, be it a map or an error.
\<close>

theorem C10_duplicate_insensitive:
  assumes "p \<in> set paths"
  shows "digest_files depth w (paths @ [p]) = digest_files depth w paths"
proof (cases "digest_files depth w paths")
  case (Inl e)
  then show ?thesis
    by (simp add: digest_files_append [of depth w paths "[p]"])
next
  case (Inr m)
  from assms have "set paths = set (paths @ [p])" by auto
  from digest_files_set_cong [OF this Inr] Inr show ?thesis by simp
qed

theorem C10_duplicate_insensitive_witness:
  "''d/a'' \<in> set [''d'', ''d/a'']
   \<and> digest_files 1 dir_world ([''d'', ''d/a''] @ [''d/a'']) = digest_files 1 dir_world [''d'', ''d/a'']"
  using C10_duplicate_insensitive [of "''d/a''" "[''d'', ''d/a'']" 1 dir_world]
  by simp

lemma digest_files_Cons_iff:
  "digest_files depth w (x # xs) = Inr m \<longleftrightarrow>
     (\<exists>c m'. digest_files depth w [x] = Inr c \<and> digest_files depth w xs = Inr m'
        \<and> m = c ++\<^sub>f m')"
  by (auto simp: digest_files_Cons [of depth w x xs] split: sum.splits)

lemma lift_iff:
  assumes "\<And>x c. x \<in> set xs \<Longrightarrow>
      digest_files depth' w' [x] = Inr c \<longleftrightarrow> digest_files depth w [x] = Inr c"
  shows "digest_files depth' w' xs = Inr m \<longleftrightarrow> digest_files depth w xs = Inr m"
  using assms
proof (induction xs arbitrary: m)
  case Nil
  show ?case by (simp add: digest_files_Nil)
next
  case (Cons x xs)
  have a: "digest_files depth' w' [x] = Inr c \<longleftrightarrow> digest_files depth w [x] = Inr c" for c
    using Cons.prems [of x c] by simp
  have b: "digest_files depth' w' xs = Inr m' \<longleftrightarrow> digest_files depth w xs = Inr m'" for m'
    by (rule Cons.IH) (rule Cons.prems, simp)
  show ?case
    by (simp only: digest_files_Cons_iff [of _ _ x xs] a b)
qed

text \<open>A deeper recursion budget does not change a result that was reached.\<close>

lemma digest_files_deeper:
  "digest_files depth w xs = Inr m \<Longrightarrow> digest_files (Suc depth) w xs = Inr m"
proof (induction depth arbitrary: xs m)
  case 0
  have s: "digest_files (Suc 0) w [x] = Inr c" if "digest_files 0 w [x] = Inr c" for x c
    using that
    by (simp add: digest_files_single [of 0 w x] digest_files_single [of "Suc 0" w x]
        split: if_splits sum.splits)
  from "0.prems" show ?case
  proof (induction xs arbitrary: m)
    case Nil
    then show ?case by (simp add: digest_files_Nil)
  next
    case (Cons x xs)
    then show ?case
      using s by (auto simp: digest_files_Cons_iff [of _ _ x xs])
  qed
next
  case (Suc d)
  have s: "digest_files (Suc (Suc d)) w [x] = Inr c" if "digest_files (Suc d) w [x] = Inr c"
    for x c
    using that Suc.IH
    by (simp add: digest_files_single [of "Suc d" w x]
        digest_files_single [of "Suc (Suc d)" w x] split: if_splits sum.splits)
  from Suc.prems show ?case
  proof (induction xs arbitrary: m)
    case Nil
    then show ?case by (simp add: digest_files_Nil)
  next
    case (Cons x xs)
    then show ?case
      using s by (auto simp: digest_files_Cons_iff [of _ _ x xs])
  qed
qed

text \<open>
  Two worlds that differ only in the order (or repetition) in which directories list
  their entries give the same maps, and fail together.
\<close>

lemma reorder_world:
  assumes same: "islink w' = islink w" "readlink w' = readlink w" "isdir w' = isdir w"
      "file_bytes w' = file_bytes w"
    and listing: "\<And>p. listdir w' p = listdir w p \<or>
      (\<exists>ns ns'. listdir w p = Inr ns \<and> listdir w' p = Inr ns' \<and> set ns' = set ns)"
  shows "digest_files depth w' xs = Inr m \<longleftrightarrow> digest_files depth w xs = Inr m"
proof (induction depth arbitrary: xs m)
  case 0
  have df: "digest_file w' x = digest_file w x" for x
    by (simp add: digest_file_def open_rb_def same)
  have "digest_files 0 w' [x] = Inr c \<longleftrightarrow> digest_files 0 w [x] = Inr c" for x c
    using listing [of x]
    by (auto simp: digest_files_single [of 0 _ x] same df split: sum.splits)
  then show ?case by (rule lift_iff)
next
  case (Suc d)
  have df: "digest_file w' x = digest_file w x" for x
    by (simp add: digest_file_def open_rb_def same)
  have "digest_files (Suc d) w' [x] = Inr c \<longleftrightarrow> digest_files (Suc d) w [x] = Inr c" for x c
  proof (cases "listdir w' x = listdir w x")
    case True
    then show ?thesis
      using Suc.IH
      by (simp add: digest_files_single [of "Suc d" _ x] same df split: sum.splits)
  next
    case False
    with listing [of x] obtain ns ns' where ns: "listdir w x = Inr ns"
      and ns': "listdir w' x = Inr ns'" and eq: "set ns' = set ns" by blast
    from eq have eq': "set (map (path_join x) ns') = set (map (path_join x) ns)" by simp
    have "digest_files d w' (map (path_join x) ns') = Inr c \<longleftrightarrow>
        digest_files d w (map (path_join x) ns) = Inr c"
      using Suc.IH [of "map (path_join x) ns'" c]
        digest_files_set_cong [OF eq', of d w c]
        digest_files_set_cong [OF eq' [symmetric], of d w c]
      by blast
    then show ?thesis
      by (simp add: digest_files_single [of "Suc d" _ x] same df ns ns')
  qed
  then show ?case by (rule lift_iff)
qed

text \<open>
  Claim C7. For a directory \<open>d\<close> (not a symbolic link) whose listing is \<open>names\<close>,
  \<open>digest_files [d]\<close> is \<open>digest_files\<close> of the children's joined paths, the call on
  the children running one level deeper in the recursion; a map returned for \<open>[d]\<close>
  is also returned for the children at the same depth. The result does not depend on the
  order of the children: permuting the list of children, or letting the directory list
  them in another order, yields the same map, and a failure exactly when the original
  order fails.
\<close>

theorem C7_flattening:
  assumes "\<not> islink w d" and "isdir w d" and "listdir w d = Inr names"
  shows "digest_files (Suc depth) w [d] = digest_files depth w (map (path_join d) names)
    \<and> (\<forall>m. digest_files depth w [d] = Inr m \<longrightarrow>
          digest_files depth w (map (path_join d) names) = Inr m)
    \<and> (\<forall>names' m. mset names' = mset names \<longrightarrow>
          (digest_files depth w (map (path_join d) names') = Inr m \<longleftrightarrow>
           digest_files depth w (map (path_join d) names) = Inr m))
    \<and> (\<forall>names' m. mset names' = mset names \<longrightarrow>
          (digest_files (Suc depth) (w\<lparr>listdir := (listdir w)(d := Inr names')\<rparr>) [d] = Inr m \<longleftrightarrow>
           digest_files (Suc depth) w [d] = Inr m))"
proof (intro conjI allI impI)
  show flat: "digest_files (Suc depth) w [d] = digest_files depth w (map (path_join d) names)"
    using assms by (simp add: digest_files_single [of "Suc depth" w d])
next
  fix m
  assume r: "digest_files depth w [d] = Inr m"
  with assms obtain k where k: "depth = Suc k"
    and c: "digest_files k w (map (path_join d) names) = Inr m"
    by (auto simp: digest_files_single [of depth w d] split: nat.splits)
  from digest_files_deeper [OF c] k
  show "digest_files depth w (map (path_join d) names) = Inr m" by simp
next
  fix names' m
  assume "mset names' = mset names"
  then have "set names' = set names" by (rule mset_eq_setD)
  then have eq: "set (map (path_join d) names') = set (map (path_join d) names)" by simp
  show "digest_files depth w (map (path_join d) names') = Inr m \<longleftrightarrow>
      digest_files depth w (map (path_join d) names) = Inr m"
    using digest_files_set_cong [OF eq, of depth w m]
      digest_files_set_cong [OF eq [symmetric], of depth w m]
    by blast
next
  fix names' m
  assume "mset names' = mset names"
  then have s: "set names' = set names" by (rule mset_eq_setD)
  show "digest_files (Suc depth) (w\<lparr>listdir := (listdir w)(d := Inr names')\<rparr>) [d] = Inr m \<longleftrightarrow>
      digest_files (Suc depth) w [d] = Inr m"
  proof (rule reorder_world)
    fix p
    show "listdir (w\<lparr>listdir := (listdir w)(d := Inr names')\<rparr>) p = listdir w p \<or>
      (\<exists>ns ns'. listdir w p = Inr ns
         \<and> listdir (w\<lparr>listdir := (listdir w)(d := Inr names')\<rparr>) p = Inr ns'
         \<and> set ns' = set ns)"
      using assms(3) s by (cases "p = d") simp_all
  qed simp_all
qed

theorem C7_flattening_witness:
  "\<not> islink dir_world ''d'' \<and> isdir dir_world ''d'' \<and> listdir dir_world ''d'' = Inr [''a'', ''b'']
   \<and> mset [''b'', ''a''] = mset [''a'', ''b'']
   \<and> digest_files 1 dir_world [''d''] = digest_files 0 dir_world [''d/a'', ''d/b'']
   \<and> digest_files 0 dir_world [''d/a'', ''d/b''] =
        Inr (fmupd ''d/b'' ''symlink=a'' (fmupd ''d/a'' (''sha256='' @ hexdigest [0x41]) fmempty))
   \<and> digest_files 0 dir_world [''d/b'', ''d/a''] =
        Inr (fmupd ''d/b'' ''symlink=a'' (fmupd ''d/a'' (''sha256='' @ hexdigest [0x41]) fmempty))"
proof -
  have h: "\<not> islink dir_world ''d''" "isdir dir_world ''d''"
    "listdir dir_world ''d'' = Inr [''a'', ''b'']"
    by (simp_all add: dir_world_def)
  have p: "mset [''b'', ''a''] = mset [''a'', ''b'']"
    by (simp add: add_mset_commute)
  have j: "map (path_join ''d'') [''a'', ''b''] = [''d/a'', ''d/b'']"
    "map (path_join ''d'') [''b'', ''a''] = [''d/b'', ''d/a'']"
    by (simp_all add: path_join_def)
  have r: "digest_files 0 dir_world [''d/a'', ''d/b''] =
        Inr (fmupd ''d/b'' ''symlink=a'' (fmupd ''d/a'' (''sha256='' @ hexdigest [0x41]) fmempty))"
    by (simp add: digest_files_def dir_world_def digest_file_def open_rb_def read_loop_append)
  note T = C7_flattening [OF h, of 0]
  from T have f: "digest_files (Suc 0) dir_world [''d''] =
      digest_files 0 dir_world (map (path_join ''d'') [''a'', ''b''])"
    by (rule conjunct1)
  from T p have "digest_files 0 dir_world (map (path_join ''d'') [''b'', ''a'']) =
        Inr (fmupd ''d/b'' ''symlink=a'' (fmupd ''d/a'' (''sha256='' @ hexdigest [0x41]) fmempty))
      \<longleftrightarrow> digest_files 0 dir_world (map (path_join ''d'') [''a'', ''b'']) =
        Inr (fmupd ''d/b'' ''symlink=a'' (fmupd ''d/a'' (''sha256='' @ hexdigest [0x41]) fmempty))"
    by blast
  with r have o: "digest_files 0 dir_world [''d/b'', ''d/a''] =
        Inr (fmupd ''d/b'' ''symlink=a'' (fmupd ''d/a'' (''sha256='' @ hexdigest [0x41]) fmempty))"
    by (simp only: j)
  from f have "digest_files 1 dir_world [''d''] = digest_files 0 dir_world [''d/a'', ''d/b'']"
    by (simp only: j One_nat_def)
  with h p r o show ?thesis by blast
qed

section \<open>Archive Digester: keys and values\<close>

lemma bare_hex_digest_json: "bare_hex (digest_json_strs xs)" "bare_hex (digest_json_ints ns)"
  by (simp_all add: digest_json_strs_def digest_json_ints_def digest_string_def
      bare_hex_hexdigest)

lemma zip_loop_values:
  assumes "digest_zip_loop archive infolist digests infos = Inr m"
    and "\<And>k v. fmlookup digests k = Some v \<Longrightarrow> bare_hex v"
    and "fmlookup m k = Some v"
  shows "bare_hex v"
  using assms
proof (induction infos arbitrary: digests)
  case Nil
  then show ?case by simp
next
  case (Cons info infos)
  from Cons.prems(1) obtain f where f: "ar_open infolist (filename info) = Inr f"
    by (auto split: sum.splits)
  let ?d = "fmupd (archive @ ''#'' @ filename info) (hexdigest (read_loop [] f))
      (fmupd (archive @ ''#'' @ filename info @ ''#date_time'')
        (case date_time info of (y, mo, d, h, mi, s) \<Rightarrow> digest_json_ints [y, mo, d, h, mi, s])
        digests)"
  from Cons.prems(1) f have r: "digest_zip_loop archive infolist ?d infos = Inr m"
    by simp
  have "bare_hex v'" if "fmlookup ?d k' = Some v'" for k' v'
    using that Cons.prems(2)
    by (auto simp: bare_hex_hexdigest bare_hex_digest_json split: if_splits prod.splits)
  from Cons.IH [OF r this Cons.prems(3)] show ?case .
qed

lemma zip_loop_dom:
  "digest_zip_loop archive infolist digests infos = Inr m \<Longrightarrow>
     fmdom' m = fmdom' digests
       \<union> (\<lambda>x. archive @ ''#'' @ x @ ''#date_time'') ` set (map filename infos)
       \<union> (\<lambda>x. archive @ ''#'' @ x) ` set (map filename infos)"
proof (induction infos arbitrary: digests)
  case Nil
  then show ?case by simp
next
  case (Cons info infos)
  from Cons.prems obtain f where f: "ar_open infolist (filename info) = Inr f"
    by (auto split: sum.splits)
  let ?d = "fmupd (archive @ ''#'' @ filename info) (hexdigest (read_loop [] f))
      (fmupd (archive @ ''#'' @ filename info @ ''#date_time'')
        (case date_time info of (y, mo, d, h, mi, s) \<Rightarrow> digest_json_ints [y, mo, d, h, mi, s])
        digests)"
  from Cons.prems f have r: "digest_zip_loop archive infolist ?d infos = Inr m"
    by simp
  from Cons.IH [OF r] show ?case by auto
qed

lemma digest_archive_Inr:
  assumes "digest_archive w archive = Inr m"
  obtains infolist where "ZipFile w archive = Inr infolist"
    and "digest_zip_loop archive infolist
          (fmupd (archive @ ''#namelist'') (digest_json_strs (map filename infolist)) fmempty)
          infolist = Inr m"
  using assms
  by (auto simp: digest_archive_def digest_zip_archive_def split: if_splits sum.splits)

lemma digest_archive_dom:
  assumes "digest_archive w archive = Inr m" and "ZipFile w archive = Inr infolist"
  shows "fmdom' m = insert (archive @ ''#namelist'')
       ((\<lambda>x. archive @ ''#'' @ x @ ''#date_time'') ` set (map filename infolist)
        \<union> (\<lambda>x. archive @ ''#'' @ x) ` set (map filename infolist))"
proof -
  from assms(1) obtain il where il: "ZipFile w archive = Inr il"
    and l: "digest_zip_loop archive il
          (fmupd (archive @ ''#namelist'') (digest_json_strs (map filename il)) fmempty)
          il = Inr m"
    by (rule digest_archive_Inr)
  from il assms(2) have "il = infolist" by simp
  with zip_loop_dom [OF l] show ?thesis by simp
qed

lemma digest_archive_values:
  assumes "digest_archive w archive = Inr m" and "fmlookup m k = Some v"
  shows "bare_hex v"
proof -
  from assms(1) obtain il where
    l: "digest_zip_loop archive il
          (fmupd (archive @ ''#namelist'') (digest_json_strs (map filename il)) fmempty)
          il = Inr m"
    by (rule digest_archive_Inr)
  show ?thesis
  proof (rule zip_loop_values [OF l _ assms(2)])
    fix k' v'
    assume "fmlookup (fmupd (archive @ ''#namelist'')
        (digest_json_strs (map filename il)) fmempty) k' = Some v'"
    then show "bare_hex v'"
      by (auto simp: bare_hex_digest_json split: if_splits)
  qed
qed

section \<open>The shape of digest values\<close>

text \<open>
  Claim C2, as amended. Every value of a map returned by \<open>digest_files\<close> is
  scheme-tagged: it starts with \<^verbatim>\<open>sha256=\<close> or with \<^verbatim>\<open>symlink=\<close>. Every value of a
  map returned by \<open>digest_archive\<close> (name list, time stamps and member contents alike) is
  a bare digest of 64 lowercase hexadecimal characters and carries no scheme tag.
\<close>

theorem C2_value_shapes:
  "(digest_files depth w paths = Inr m \<and> fmlookup m k = Some v \<longrightarrow> scheme_tagged v)
   \<and> (digest_archive w archive = Inr m' \<and> fmlookup m' k' = Some v' \<longrightarrow>
        bare_hex v' \<and> \<not> scheme_tagged v')"
  using scheme_tagged_leaf_value [of depth w paths m k v]
    digest_archive_values [of w archive m' k' v'] bare_hex_not_tagged [of v']
  by blast

lemma one_member_files:
  "digest_files 0 one_member_world [''a.zip''] =
     Inr (fmupd ''a.zip'' (''sha256='' @ hexdigest [0x50, 0x4B, 0x03, 0x04]) fmempty)"
  by (simp add: digest_files_def one_member_world_def empty_world_def digest_file_def
      open_rb_def read_loop_append)

lemma one_member_archive:
  "digest_archive one_member_world ''a.zip'' =
     Inr (fmupd ''a.zip#x'' (hexdigest [0x31])
           (fmupd ''a.zip#x#date_time'' (digest_json_ints [1980, 1, 1, 0, 0, 0])
             (fmupd ''a.zip#namelist'' (digest_json_strs [''x'']) fmempty)))"
  by (simp add: digest_archive_def endswith_def digest_zip_archive_def ZipFile_def
      open_rb_def one_member_world_def empty_world_def member_x_def ar_open_def
      read_loop_append)

theorem C2_value_shapes_witness:
  "digest_files 0 one_member_world [''a.zip''] =
     Inr (fmupd ''a.zip'' (''sha256='' @ hexdigest [0x50, 0x4B, 0x03, 0x04]) fmempty)
   \<and> scheme_tagged (''sha256='' @ hexdigest [0x50, 0x4B, 0x03, 0x04])
   \<and> digest_archive one_member_world ''a.zip'' =
     Inr (fmupd ''a.zip#x'' (hexdigest [0x31])
           (fmupd ''a.zip#x#date_time'' (digest_json_ints [1980, 1, 1, 0, 0, 0])
             (fmupd ''a.zip#namelist'' (digest_json_strs [''x'']) fmempty)))
   \<and> bare_hex (hexdigest [0x31]) \<and> \<not> scheme_tagged (hexdigest [0x31])"
  using C2_value_shapes [where depth = 0 and w = one_member_world and paths = "[''a.zip'']"
      and m = "fmupd ''a.zip'' (''sha256='' @ hexdigest [0x50, 0x4B, 0x03, 0x04]) fmempty"
      and k = "''a.zip''" and v = "''sha256='' @ hexdigest [0x50, 0x4B, 0x03, 0x04]"
      and archive = "''a.zip''"
      and m' = "fmupd ''a.zip#x'' (hexdigest [0x31])
           (fmupd ''a.zip#x#date_time'' (digest_json_ints [1980, 1, 1, 0, 0, 0])
             (fmupd ''a.zip#namelist'' (digest_json_strs [''x'']) fmempty))"
      and k' = "''a.zip#x''" and v' = "hexdigest [0x31]"]
    one_member_files one_member_archive
  by simp

lemma namelist_of_no_members:
  "digest_json_strs [] = ''4f53cda18c2baa0c0354bb5f9a3ecbe5ed12ab4d8e11ba873c2f11161202b945''"
  by code_simp

theorem C2_bare_digest_counterexample:
  "digest_archive empty_zip_world ''a.zip'' =
     Inr (fmupd ''a.zip#namelist''
           ''4f53cda18c2baa0c0354bb5f9a3ecbe5ed12ab4d8e11ba873c2f11161202b945'' fmempty)
   \<and> \<not> scheme_tagged ''4f53cda18c2baa0c0354bb5f9a3ecbe5ed12ab4d8e11ba873c2f11161202b945''"
proof
  have "digest_archive empty_zip_world ''a.zip'' =
      Inr (fmupd ''a.zip#namelist'' (digest_json_strs []) fmempty)"
    by (simp add: digest_archive_def endswith_def digest_zip_archive_def ZipFile_def
        open_rb_def empty_zip_world_def empty_world_def)
  then show "digest_archive empty_zip_world ''a.zip'' =
     Inr (fmupd ''a.zip#namelist''
           ''4f53cda18c2baa0c0354bb5f9a3ecbe5ed12ab4d8e11ba873c2f11161202b945'' fmempty)"
    by (simp only: namelist_of_no_members)
  show "\<not> scheme_tagged ''4f53cda18c2baa0c0354bb5f9a3ecbe5ed12ab4d8e11ba873c2f11161202b945''"
    by (simp add: scheme_tagged_def)
qed

end
